theory Spec2Isabelle
  imports Main "HOL-Library.Word" "HOL-Library.Sublist"
begin

section \<open>Data model of \<^verbatim>\<open>FilteredCommand.cpp\<close>\<close>

text \<open>
  A \<^verbatim>\<open>winrt::hstring\<close> is a sequence of UTF-16 code units (\<^verbatim>\<open>wchar_t\<close> is 16 bits
  wide on the target). Its \<^verbatim>\<open>size()\<close> is a \<^verbatim>\<open>uint32_t\<close>, and the byte size of its
  allocation (a header, the code units and their terminator) has to fit 32 bits as well:
  a string that exists holds fewer than \<open>2 ^ 31\<close> code units.
\<close>

type_synonym wchar = "16 word"
type_synonym hstring = "wchar list"

text \<open>\<^verbatim>\<open>hstring::size()\<close>, as the \<^verbatim>\<open>uint32_t\<close> it returns.\<close>

definition hstring_size :: "hstring \<Rightarrow> 32 word" where
  "hstring_size s = of_nat (length s)"

text \<open>
  \<^verbatim>\<open>std::towlower\<close> belongs to the C library and depends on the locale: the functions
  below take it as the parameter \<open>towlower\<close>. \<open>towlower_C\<close> is the one of the "C" locale
  (only \<^verbatim>\<open>A\<close> to \<^verbatim>\<open>Z\<close> change), used for the concrete examples.
\<close>

definition towlower_C :: "wchar \<Rightarrow> wchar" where
  "towlower_C c = (if 0x41 \<le> c \<and> c \<le> 0x5A then c + 0x20 else c)"

text \<open>An ASCII literal as an \<^verbatim>\<open>hstring\<close> (\<^verbatim>\<open>L"..."\<close>).\<close>

definition wstr :: "string \<Rightarrow> hstring" where
  "wstr s = map (\<lambda>c. of_nat (of_char c)) s"

text \<open>\<^verbatim>\<open>winrt::make<HighlightedTextSegment>(text, isHighlighted)\<close>.\<close>

datatype HighlightedTextSegment =
  HighlightedTextSegment (TextSegment: hstring) (IsHighlighted: bool)

text \<open>\<^verbatim>\<open>winrt::make<HighlightedText>(segments)\<close>.\<close>

datatype HighlightedText =
  HighlightedText (Segments: "HighlightedTextSegment list")

section \<open>\<^verbatim>\<open>FilteredCommand::_computeHighlightedName\<close>\<close>

text \<open>The local variables of the function that the loops change.\<close>

record seg_state =
  segments :: "HighlightedTextSegment list"
  isProcessingMatchedSegment :: bool
  nextOffsetToReport :: nat
  currentOffset :: nat

text \<open>
  How the inner \<^verbatim>\<open>while (true)\<close> ends: by \<^verbatim>\<open>break\<close> (the filter character is matched),
  by the early \<^verbatim>\<open>return\<close> (the name is exhausted), or by reading \<^verbatim>\<open>commandName[currentOffset]\<close>
  beyond the end of the name, which \<^verbatim>\<open>hstring::operator[]\<close> does not allow.
\<close>

datatype scan_outcome = Matched seg_state | NameExhausted | IndexOutOfRange

text \<open>\<^verbatim>\<open>winrt::hstring segment{ commandName.data() + offset, size }\<close>.\<close>

definition slice :: "hstring \<Rightarrow> nat \<Rightarrow> nat \<Rightarrow> hstring" where
  "slice commandName offset sizeToReport = take sizeToReport (drop offset commandName)"

text \<open>
  The body of \<^verbatim>\<open>if (isProcessingMatchedSegment != isCurrentCharMatched)\<close>: conclude the
  segment in progress, unless it is empty, and switch the classification.
\<close>

definition conclude_segment :: "hstring \<Rightarrow> bool \<Rightarrow> seg_state \<Rightarrow> seg_state" where
  "conclude_segment commandName isCurrentCharMatched st =
     (let sizeToReport = currentOffset st - nextOffsetToReport st;
          st1 = (if sizeToReport > 0
                 then st\<lparr>segments := segments st @
                            [HighlightedTextSegment
                               (slice commandName (nextOffsetToReport st) sizeToReport)
                               (isProcessingMatchedSegment st)],
                         nextOffsetToReport := currentOffset st\<rparr>
                 else st)
      in st1\<lparr>isProcessingMatchedSegment := isCurrentCharMatched\<rparr>)"

text \<open>The inner \<^verbatim>\<open>while (true)\<close> loop, for one (lowercased) filter character.\<close>

function scan :: "(wchar \<Rightarrow> wchar) \<Rightarrow> hstring \<Rightarrow> wchar \<Rightarrow> seg_state \<Rightarrow> scan_outcome" where
  "scan towlower commandName lowerCaseSearchChar st =
     (if currentOffset st = length commandName then NameExhausted
      else if \<not> currentOffset st < length commandName then IndexOutOfRange
      else
        let isCurrentCharMatched =
              (towlower (commandName ! currentOffset st) = lowerCaseSearchChar);
            st1 = (if isProcessingMatchedSegment st \<noteq> isCurrentCharMatched
                   then conclude_segment commandName isCurrentCharMatched st
                   else st);
            st2 = st1\<lparr>currentOffset := currentOffset st1 + 1\<rparr>
        in if isCurrentCharMatched then Matched st2
           else scan towlower commandName lowerCaseSearchChar st2)"
  by pat_completeness auto
termination
  by (relation "measure (\<lambda>(towlower, commandName, c, st). length commandName - currentOffset st)")
     (auto simp: conclude_segment_def Let_def)

declare scan.simps [simp del]

text \<open>The outer \<^verbatim>\<open>for (const auto searchChar : _Filter)\<close> loop.\<close>

fun match_filter :: "(wchar \<Rightarrow> wchar) \<Rightarrow> hstring \<Rightarrow> hstring \<Rightarrow> seg_state \<Rightarrow> scan_outcome" where
  "match_filter towlower commandName [] st = Matched st"
| "match_filter towlower commandName (searchChar # rest) st =
     (case scan towlower commandName (towlower searchChar) st of
        Matched st' \<Rightarrow> match_filter towlower commandName rest st'
      | NameExhausted \<Rightarrow> NameExhausted
      | IndexOutOfRange \<Rightarrow> IndexOutOfRange)"

definition initial_state :: seg_state where
  "initial_state =
     \<lparr>segments = [], isProcessingMatchedSegment = False,
      nextOffsetToReport = 0, currentOffset = 0\<rparr>"

text \<open>The code after the loops: the matched segment in progress, then the remainder.\<close>

definition finish :: "hstring \<Rightarrow> seg_state \<Rightarrow> HighlightedTextSegment list" where
  "finish commandName st =
     (let st1 = (if isProcessingMatchedSegment st
                 then (let sizeToReport = currentOffset st - nextOffsetToReport st
                       in if sizeToReport > 0
                          then st\<lparr>segments := segments st @
                                    [HighlightedTextSegment
                                       (slice commandName (nextOffsetToReport st) sizeToReport) True],
                                  nextOffsetToReport := currentOffset st\<rparr>
                          else st)
                 else st);
          sizeToReport = length commandName - nextOffsetToReport st1
      in if sizeToReport > 0
         then segments st1 @
                [HighlightedTextSegment
                   (slice commandName (nextOffsetToReport st1) sizeToReport) False]
         else segments st1)"

text \<open>
  The whole function, of the command's name and the filter. \<open>None\<close> stands for an
  out-of-range read of the name.
\<close>

definition computeHighlightedName ::
  "(wchar \<Rightarrow> wchar) \<Rightarrow> hstring \<Rightarrow> hstring \<Rightarrow> HighlightedText option" where
  "computeHighlightedName towlower commandName filterText =
     (case match_filter towlower commandName filterText initial_state of
        NameExhausted \<Rightarrow> Some (HighlightedText [HighlightedTextSegment commandName False])
      | IndexOutOfRange \<Rightarrow> None
      | Matched st \<Rightarrow> Some (HighlightedText (finish commandName st)))"

section \<open>\<^verbatim>\<open>FilteredCommand::_computeWeight\<close>\<close>

text \<open>
  \<^verbatim>\<open>result\<close> is an \<^verbatim>\<open>int\<close> and \<^verbatim>\<open>segmentSize\<close> a \<^verbatim>\<open>uint32_t\<close>, both 32 bits wide: the
  points of a segment are computed in \<^verbatim>\<open>uint32_t\<close> and \<^verbatim>\<open>result += ...\<close> adds them
  modulo \<open>2 ^ 32\<close>. A \<open>32 word\<close> holds the bits of \<^verbatim>\<open>result\<close>; \<open>sint\<close> reads the
  \<^verbatim>\<open>int\<close>. The increment \<^verbatim>\<open>result++\<close> wraps as well, as the target compiles it.
\<close>

fun computeWeight_loop :: "HighlightedTextSegment list \<Rightarrow> 32 word \<Rightarrow> bool \<Rightarrow> 32 word" where
  "computeWeight_loop [] result isNextSegmentWordBeginning = result"
| "computeWeight_loop (segment # rest) result isNextSegmentWordBeginning =
     (let segmentText = TextSegment segment;
          segmentSize = hstring_size segmentText;
          result1 =
            (if IsHighlighted segment
             then (let r = result +
                             (if segmentSize \<le> 1 then segmentSize
                              else 1 + 2 * (segmentSize - 1))
                   in if isNextSegmentWordBeginning then r + 1 else r)
             else result)
      in computeWeight_loop rest result1
           (segmentSize > 0 \<and> segmentText ! unat (segmentSize - 1) = 0x20))"

definition computeWeight :: "HighlightedText \<Rightarrow> 32 word" where
  "computeWeight highlightedName = computeWeight_loop (Segments highlightedName) 0 True"

text \<open>
  The weight as the specification words it, over the unbounded integers: the points of
  each segment, summed in order; \<open>at_word_start\<close> holds for the first segment and then
  exactly when the previous segment is non-empty and ends in a space.
\<close>

fun weight_sum :: "bool \<Rightarrow> HighlightedTextSegment list \<Rightarrow> int" where
  "weight_sum at_word_start [] = 0"
| "weight_sum at_word_start (s # ss) =
     (if IsHighlighted s
      then (let len = int (length (TextSegment s))
            in (if len \<le> 1 then len else 1 + 2 * (len - 1)) +
               (if at_word_start then 1 else 0))
      else 0) +
     weight_sum (TextSegment s \<noteq> [] \<and> last (TextSegment s) = 0x20) ss"

section \<open>The view model: constructor, \<^verbatim>\<open>UpdateFilter\<close>, name changes\<close>

text \<open>
  The settings model's \<^verbatim>\<open>Command\<close> is an external object; only its name is read here.
\<close>

record Command =
  Name :: hstring

record FilteredCommand =
  Command :: Command
  Filter :: hstring
  HighlightedName :: HighlightedText
  Weight :: "32 word"

text \<open>The member functions, reading the fields of \<^verbatim>\<open>this\<close>.\<close>

definition this_computeHighlightedName ::
  "(wchar \<Rightarrow> wchar) \<Rightarrow> FilteredCommand \<Rightarrow> HighlightedText option" where
  "this_computeHighlightedName towlower this =
     computeHighlightedName towlower (Name (Command this)) (Filter this)"

definition this_computeWeight :: "FilteredCommand \<Rightarrow> 32 word" where
  "this_computeWeight this = computeWeight (HighlightedName this)"

text \<open>
  Modelled from the spec: the property setters \<^verbatim>\<open>Filter(v)\<close>, \<^verbatim>\<open>HighlightedName(v)\<close> and
  \<^verbatim>\<open>Weight(v)\<close> come from a macro of the class declaration, which is not among the
  sources; they store the value in the field (and signal the change to observers, which
  is no part of the record's state).
\<close>

definition recompute :: "(wchar \<Rightarrow> wchar) \<Rightarrow> FilteredCommand \<Rightarrow> FilteredCommand option" where
  "recompute towlower this =
     (case this_computeHighlightedName towlower this of
        None \<Rightarrow> None
      | Some h \<Rightarrow>
          (let this1 = this\<lparr>HighlightedName := h\<rparr>
           in Some (this1\<lparr>Weight := this_computeWeight this1\<rparr>)))"

text \<open>The constructor: empty filter, weight 0, and the highlighted name computed.\<close>

definition new_FilteredCommand :: "(wchar \<Rightarrow> wchar) \<Rightarrow> Command \<Rightarrow> FilteredCommand option" where
  "new_FilteredCommand towlower command =
     (case computeHighlightedName towlower (Name command) [] of
        None \<Rightarrow> None
      | Some h \<Rightarrow>
          Some \<lparr>Command = command, Filter = [], HighlightedName = h, Weight = 0\<rparr>)"

definition UpdateFilter ::
  "(wchar \<Rightarrow> wchar) \<Rightarrow> hstring \<Rightarrow> FilteredCommand \<Rightarrow> FilteredCommand option" where
  "UpdateFilter towlower filterText this =
     (if filterText \<noteq> Filter this
      then recompute towlower (this\<lparr>Filter := filterText\<rparr>)
      else Some this)"

text \<open>
  The handler that the constructor registers for the command's \<^verbatim>\<open>PropertyChanged\<close> event
  (for a view model that is still alive).
\<close>

definition on_PropertyChanged ::
  "(wchar \<Rightarrow> wchar) \<Rightarrow> hstring \<Rightarrow> FilteredCommand \<Rightarrow> FilteredCommand option" where
  "on_PropertyChanged towlower propertyName this =
     (if propertyName = wstr ''Name'' then recompute towlower this else Some this)"

text \<open>
  Modelled from the spec: the command object and the raising of its event are not among
  the sources. A name change stores the new name in the command, then notifies the
  handler with the property name \<^verbatim>\<open>Name\<close>.
\<close>

definition on_name_changed ::
  "(wchar \<Rightarrow> wchar) \<Rightarrow> hstring \<Rightarrow> FilteredCommand \<Rightarrow> FilteredCommand option" where
  "on_name_changed towlower newName this =
     on_PropertyChanged towlower (wstr ''Name'')
       (this\<lparr>Command := (Command this)\<lparr>Name := newName\<rparr>\<rparr>)"

text \<open>The derived fields agree with the name and the filter.\<close>

definition consistent :: "(wchar \<Rightarrow> wchar) \<Rightarrow> FilteredCommand \<Rightarrow> bool" where
  "consistent towlower this \<longleftrightarrow>
     computeHighlightedName towlower (Name (Command this)) (Filter this) =
       Some (HighlightedName this) \<and>
     Weight this = computeWeight (HighlightedName this)"

text \<open>The states a view model goes through.\<close>

inductive reachable :: "(wchar \<Rightarrow> wchar) \<Rightarrow> FilteredCommand \<Rightarrow> bool"
  for towlower :: "wchar \<Rightarrow> wchar" where
  constructed:
    "new_FilteredCommand towlower command = Some this \<Longrightarrow> reachable towlower this"
| filter_updated:
    "reachable towlower this \<Longrightarrow> UpdateFilter towlower filterText this = Some this' \<Longrightarrow>
     reachable towlower this'"
| name_changed:
    "reachable towlower this \<Longrightarrow> on_name_changed towlower newName this = Some this' \<Longrightarrow>
     reachable towlower this'"
| other_property_changed:
    "reachable towlower this \<Longrightarrow> propertyName \<noteq> wstr ''Name'' \<Longrightarrow>
     on_PropertyChanged towlower propertyName this = Some this' \<Longrightarrow>
     reachable towlower this'"

section \<open>\<^verbatim>\<open>FilteredCommand::Compare\<close>\<close>

text \<open>
  \<^verbatim>\<open>std::wstring_view::compare\<close>, of the C++ standard library: the common prefix is
  compared code unit by code unit (\<^verbatim>\<open>wchar_t\<close> is unsigned on the target), then the
  lengths.
\<close>

fun traits_compare :: "hstring \<Rightarrow> hstring \<Rightarrow> nat \<Rightarrow> int" where
  "traits_compare (x # xs) (y # ys) (Suc n) =
     (if x < y then - 1 else if y < x then 1 else traits_compare xs ys n)"
| "traits_compare xs ys n = 0"

definition wstring_view_compare :: "hstring \<Rightarrow> hstring \<Rightarrow> int" where
  "wstring_view_compare a b =
     (let rlen = min (length a) (length b);
          r = traits_compare a b rlen
      in if r \<noteq> 0 then r
         else if length a < length b then - 1
         else if length a > length b then 1
         else 0)"

text \<open>The \<^verbatim>\<open>bool\<close> of each \<^verbatim>\<open>return\<close> becomes the \<^verbatim>\<open>int\<close> 1 or 0.\<close>

definition Compare :: "FilteredCommand \<Rightarrow> FilteredCommand \<Rightarrow> int" where
  "Compare first second =
     (let firstWeight = Weight first;
          secondWeight = Weight second
      in if firstWeight = secondWeight
         then (let firstName = Name (Command first);
                   secondName = Name (Command second)
               in of_bool (wstring_view_compare firstName secondName < 0))
         else of_bool (sint firstWeight > sint secondWeight))"

text \<open>
  The order the specification names: lexicographic, case-sensitive, by code unit (a
  proper prefix comes first).
\<close>

definition name_precedes :: "hstring \<Rightarrow> hstring \<Rightarrow> bool" where
  "name_precedes a b \<longleftrightarrow> (a, b) \<in> lexord {(x, y). x < y}"

section \<open>The greedy assignment of the filter to the name\<close>

text \<open>
  The first position of the name, from the cursor on, whose lowercase form is the
  (lowercased) filter character.
\<close>

definition first_match :: "(wchar \<Rightarrow> wchar) \<Rightarrow> hstring \<Rightarrow> nat \<Rightarrow> wchar \<Rightarrow> nat option" where
  "first_match towlower name cursor t =
     List.find (\<lambda>i. towlower (name ! i) = t) [cursor ..< length name]"

text \<open>
  Each filter character, in order, goes to the first name character not yet passed whose
  lowercase form equals its own; the cursor then stands behind that character. \<open>None\<close>
  when the name is exhausted before the filter.
\<close>

fun greedy_assignment :: "(wchar \<Rightarrow> wchar) \<Rightarrow> hstring \<Rightarrow> nat \<Rightarrow> hstring \<Rightarrow> nat list option" where
  "greedy_assignment towlower name cursor [] = Some []"
| "greedy_assignment towlower name cursor (c # cs) =
     (case first_match towlower name cursor (towlower c) of
        None \<Rightarrow> None
      | Some p \<Rightarrow> map_option ((#) p) (greedy_assignment towlower name (Suc p) cs))"

text \<open>The positions of the name that lie in highlighted segments, in order.\<close>

fun highlighted_offsets :: "nat \<Rightarrow> HighlightedTextSegment list \<Rightarrow> nat list" where
  "highlighted_offsets off [] = []"
| "highlighted_offsets off (s # ss) =
     (if IsHighlighted s then [off ..< off + length (TextSegment s)] else []) @
     highlighted_offsets (off + length (TextSegment s)) ss"

text \<open>
  The same assignment said position by position: \<open>p\<close> is the first position from the
  cursor on whose lowercase form is that of the filter character \<open>c\<close>, and the
  \<open>i\<close>-th filter character takes the first such position behind the one of its
  predecessor.
\<close>

definition first_available :: "(wchar \<Rightarrow> wchar) \<Rightarrow> hstring \<Rightarrow> nat \<Rightarrow> wchar \<Rightarrow> nat \<Rightarrow> bool" where
  "first_available towlower name cursor c p \<longleftrightarrow>
     cursor \<le> p \<and> p < length name \<and> towlower (name ! p) = towlower c \<and>
     (\<forall>j \<in> {cursor ..< p}. towlower (name ! j) \<noteq> towlower c)"

definition is_greedy :: "(wchar \<Rightarrow> wchar) \<Rightarrow> hstring \<Rightarrow> hstring \<Rightarrow> nat list \<Rightarrow> bool" where
  "is_greedy towlower name cs ps \<longleftrightarrow>
     length ps = length cs \<and>
     (\<forall>i \<in> {..< length cs}.
        first_available towlower name (if i = 0 then 0 else Suc (ps ! (i - 1))) (cs ! i) (ps ! i))"

text \<open>
  A name that an \<^verbatim>\<open>hstring\<close> can hold: \<^verbatim>\<open>x\<close>, then \<open>2 ^ 30 + 1\<close> times \<^verbatim>\<open>a\<close>; and that run
  of \<^verbatim>\<open>a\<close>, which is the filter matching it.
\<close>

definition run_of_a :: hstring where
  "run_of_a = replicate (Suc (2 ^ 30)) 0x61"

definition x_run_of_a :: hstring where
  "x_run_of_a = 0x78 # run_of_a"

section \<open>The loop invariant of the segmenter\<close>

text \<open>
  The offsets stay ordered and inside the name (so no \<^verbatim>\<open>uint32_t\<close> subtraction wraps and
  every slice is in range), the segments emitted so far spell the name up to
  \<open>nextOffsetToReport\<close>, and none of them is empty.
\<close>

definition seg_inv :: "hstring \<Rightarrow> seg_state \<Rightarrow> bool" where
  "seg_inv name st \<longleftrightarrow>
     nextOffsetToReport st \<le> currentOffset st \<and> currentOffset st \<le> length name \<and>
     concat (map TextSegment (segments st)) = take (nextOffsetToReport st) name \<and>
     (\<forall>s \<in> set (segments st). TextSegment s \<noteq> [])"

text \<open>The positions classified as matched so far: emitted ones, then the run in progress.\<close>

definition matched_so_far :: "seg_state \<Rightarrow> nat list" where
  "matched_so_far st =
     highlighted_offsets 0 (segments st) @
     (if isProcessingMatchedSegment st
      then [nextOffsetToReport st ..< currentOffset st] else [])"

text \<open>One turn of the inner loop on a character classified as \<open>b\<close>.\<close>

definition advance :: "hstring \<Rightarrow> bool \<Rightarrow> seg_state \<Rightarrow> seg_state" where
  "advance name b st =
     (let st1 = (if isProcessingMatchedSegment st \<noteq> b then conclude_segment name b st else st)
      in st1\<lparr>currentOffset := currentOffset st1 + 1\<rparr>)"

section \<open>Properties of the segmenter\<close>

lemma highlighted_offsets_append:
  "highlighted_offsets off (xs @ ys) =
     highlighted_offsets off xs @
     highlighted_offsets (off + length (concat (map TextSegment xs))) ys"
  by (induction xs arbitrary: off) (simp_all add: add.assoc)

lemma advance_fields:
  "currentOffset (advance name b st) = Suc (currentOffset st)"
  "isProcessingMatchedSegment (advance name b st) = b"
  by (simp_all add: advance_def conclude_segment_def Let_def)

lemma advance_inv:
  assumes "seg_inv name st" "currentOffset st < length name"
  shows "seg_inv name (advance name b st)"
proof -
  let ?n = "nextOffsetToReport st" and ?c = "currentOffset st"
  from assms have le: "?n \<le> ?c" "?c \<le> length name"
    and spelt: "concat (map TextSegment (segments st)) = take ?n name"
    and ne: "\<forall>s \<in> set (segments st). TextSegment s \<noteq> []"
    by (simp_all add: seg_inv_def)
  have "take ?n name @ take (?c - ?n) (drop ?n name) = take ?c name"
    using le take_add [of ?n "?c - ?n" name] by simp
  moreover have "?n < ?c \<Longrightarrow> take (?c - ?n) (drop ?n name) \<noteq> []"
    using le by simp
  ultimately show ?thesis
    using le spelt ne assms(2)
    by (auto simp: seg_inv_def advance_def conclude_segment_def slice_def Let_def)
qed

lemma advance_matched:
  assumes "seg_inv name st"
  shows "matched_so_far (advance name b st) =
           matched_so_far st @ (if b then [currentOffset st] else [])"
proof -
  let ?n = "nextOffsetToReport st" and ?c = "currentOffset st"
  from assms have le: "?n \<le> ?c" "?c \<le> length name"
    and len: "length (concat (map TextSegment (segments st))) = ?n"
    by (simp_all add: seg_inv_def)
  have sl: "length (slice name ?n (?c - ?n)) = ?c - ?n"
    using le by (simp add: slice_def)
  show ?thesis
    using le len sl
    by (auto simp: matched_so_far_def advance_def conclude_segment_def Let_def
        highlighted_offsets_append)
qed

lemma scan_unfold:
  "scan towlower name t st =
     (if currentOffset st = length name then NameExhausted
      else if \<not> currentOffset st < length name then IndexOutOfRange
      else if towlower (name ! currentOffset st) = t
           then Matched (advance name True st)
           else scan towlower name t (advance name False st))"
  by (subst scan.simps) (simp add: advance_def Let_def)

lemma first_match_unfold:
  "cursor < length name \<Longrightarrow>
   first_match towlower name cursor t =
     (if towlower (name ! cursor) = t then Some cursor
      else first_match towlower name (Suc cursor) t)"
  by (simp add: first_match_def upt_conv_Cons)

lemma first_match_end: "length name \<le> cursor \<Longrightarrow> first_match towlower name cursor t = None"
  by (simp add: first_match_def)

lemma scan_spec:
  "seg_inv name st \<Longrightarrow>
   (case first_match towlower name (currentOffset st) t of
      None \<Rightarrow> scan towlower name t st = NameExhausted
    | Some p \<Rightarrow>
        (\<exists>st'. scan towlower name t st = Matched st' \<and> seg_inv name st' \<and>
           currentOffset st' = Suc p \<and> isProcessingMatchedSegment st' \<and>
           matched_so_far st' = matched_so_far st @ [p]))"
proof (induction "length name - currentOffset st" arbitrary: st)
  case 0
  then have "currentOffset st = length name" by (simp add: seg_inv_def)
  then show ?case by (simp add: first_match_end scan_unfold)
next
  case (Suc k)
  then have lt: "currentOffset st < length name" by simp
  show ?case
  proof (cases "towlower (name ! currentOffset st) = t")
    case True
    with lt Suc.prems show ?thesis
      by (simp add: first_match_unfold scan_unfold [of towlower name t st]
          advance_inv advance_matched advance_fields)
  next
    case False
    have "k = length name - currentOffset (advance name False st)"
      using Suc.hyps(2) by (simp add: advance_fields)
    moreover have "seg_inv name (advance name False st)"
      using Suc.prems lt by (rule advance_inv)
    ultimately have
      "case first_match towlower name (currentOffset (advance name False st)) t of
         None \<Rightarrow> scan towlower name t (advance name False st) = NameExhausted
       | Some p \<Rightarrow>
           (\<exists>st'. scan towlower name t (advance name False st) = Matched st' \<and>
              seg_inv name st' \<and> currentOffset st' = Suc p \<and>
              isProcessingMatchedSegment st' \<and>
              matched_so_far st' = matched_so_far (advance name False st) @ [p])"
      by (rule Suc.hyps(1))
    with lt False Suc.prems show ?thesis
      by (simp add: first_match_unfold scan_unfold [of towlower name t st]
          advance_matched advance_fields split: option.splits)
  qed
qed

lemma match_filter_spec:
  "seg_inv name st \<Longrightarrow>
   (case greedy_assignment towlower name (currentOffset st) cs of
      None \<Rightarrow> match_filter towlower name cs st = NameExhausted
    | Some ps \<Rightarrow>
        (\<exists>st'. match_filter towlower name cs st = Matched st' \<and> seg_inv name st' \<and>
           matched_so_far st' = matched_so_far st @ ps))"
proof (induction cs arbitrary: st)
  case Nil
  then show ?case by simp
next
  case (Cons c cs)
  show ?case
  proof (cases "first_match towlower name (currentOffset st) (towlower c)")
    case None
    with scan_spec [OF Cons.prems, of towlower "towlower c"] show ?thesis by simp
  next
    case (Some p)
    with scan_spec [OF Cons.prems, of towlower "towlower c"] obtain st1 where
      st1: "scan towlower name (towlower c) st = Matched st1" "seg_inv name st1"
        "currentOffset st1 = Suc p" "matched_so_far st1 = matched_so_far st @ [p]"
      by auto
    from Cons.IH [OF st1(2)] Some st1 show ?thesis
      by (auto split: option.splits)
  qed
qed

lemma initial_state_inv: "seg_inv name initial_state"
  by (simp add: seg_inv_def initial_state_def)

lemma finish_concat:
  assumes "seg_inv name st"
  shows "concat (map TextSegment (finish name st)) = name"
proof -
  let ?n = "nextOffsetToReport st" and ?c = "currentOffset st"
  from assms have le: "?n \<le> ?c" "?c \<le> length name"
    and spelt: "concat (map TextSegment (segments st)) = take ?n name"
    by (simp_all add: seg_inv_def)
  have "take ?n name @ take (?c - ?n) (drop ?n name) = take ?c name"
    using le take_add [of ?n "?c - ?n" name] by simp
  then have "take ?n name @ take (?c - ?n) (drop ?n name) @ drop ?c name = name"
    by (metis append.assoc append_take_drop_id)
  with le spelt show ?thesis
    by (auto simp: finish_def slice_def Let_def)
qed

lemma finish_offsets:
  assumes "seg_inv name st"
  shows "highlighted_offsets 0 (finish name st) = matched_so_far st"
proof -
  let ?n = "nextOffsetToReport st" and ?c = "currentOffset st"
  from assms have le: "?n \<le> ?c" "?c \<le> length name"
    and len: "length (concat (map TextSegment (segments st))) = ?n"
    by (simp_all add: seg_inv_def)
  have "length (slice name ?n (?c - ?n)) = ?c - ?n"
    using le by (simp add: slice_def)
  with le len show ?thesis
    by (auto simp: matched_so_far_def finish_def Let_def highlighted_offsets_append)
qed

lemma finish_nonempty:
  "seg_inv name st \<Longrightarrow> s \<in> set (finish name st) \<Longrightarrow> TextSegment s \<noteq> []"
  by (auto simp: seg_inv_def finish_def slice_def Let_def split: if_splits)

lemma computeHighlightedName_cases:
  "case greedy_assignment towlower name 0 filterText of
     None \<Rightarrow>
       computeHighlightedName towlower name filterText =
         Some (HighlightedText [HighlightedTextSegment name False])
   | Some ps \<Rightarrow>
       (\<exists>segs. computeHighlightedName towlower name filterText = Some (HighlightedText segs) \<and>
          concat (map TextSegment segs) = name \<and>
          highlighted_offsets 0 segs = ps \<and>
          (\<forall>s \<in> set segs. TextSegment s \<noteq> []))"
  using match_filter_spec [OF initial_state_inv, of towlower name filterText]
  by (auto simp: computeHighlightedName_def initial_state_def matched_so_far_def
      finish_concat finish_offsets split: option.splits dest: finish_nonempty)

lemma first_match_bounds:
  "first_match towlower name cursor t = Some p \<Longrightarrow>
   cursor \<le> p \<and> p < length name \<and> towlower (name ! p) = t \<and>
   (\<forall>j. cursor \<le> j \<and> j < p \<longrightarrow> towlower (name ! j) \<noteq> t)"
proof -
  assume h: "first_match towlower name cursor t = Some p"
  then obtain i where i: "i < length [cursor..<length name]"
     "towlower (name ! ([cursor..<length name] ! i)) = t" "p = [cursor..<length name] ! i"
     "\<forall>j<i. towlower (name ! ([cursor..<length name] ! j)) \<noteq> t"
    unfolding first_match_def find_Some_iff by blast
  then have p: "p = cursor + i" "i < length name - cursor" by simp_all
  have "towlower (name ! j) \<noteq> t" if "cursor \<le> j" "j < p" for j
  proof -
    from that p have "j - cursor < i" by simp
    with i(4) have "towlower (name ! ([cursor..<length name] ! (j - cursor))) \<noteq> t" by blast
    moreover have "[cursor..<length name] ! (j - cursor) = j" using that p by simp
    ultimately show ?thesis by simp
  qed
  with i p show ?thesis by auto
qed

lemma first_match_None:
  "first_match towlower name cursor t = None \<Longrightarrow> t \<notin> set (map towlower (drop cursor name))"
proof
  assume h: "first_match towlower name cursor t = None" and "t \<in> set (map towlower (drop cursor name))"
  then obtain i where "i < length (drop cursor name)" "towlower (drop cursor name ! i) = t"
    by (auto simp: in_set_conv_nth)
  then have "cursor + i < length name" "towlower (name ! (cursor + i)) = t" by simp_all
  with h show False by (auto simp: first_match_def find_None_iff)
qed

lemma subseq_skip_prefix:
  "x \<notin> set pre \<Longrightarrow> subseq (x # xs) (pre @ x # rest) \<longleftrightarrow> subseq xs rest"
  by (induction pre) auto

lemma subseq_head_absent: "x \<notin> set ys \<Longrightarrow> \<not> subseq (x # xs) ys"
  by (induction ys) auto

lemma greedy_assignment_subseq:
  "greedy_assignment towlower name cursor cs \<noteq> None \<longleftrightarrow>
   subseq (map towlower cs) (map towlower (drop cursor name))"
proof (induction cs arbitrary: cursor)
  case Nil
  show ?case by simp
next
  case (Cons c cs)
  show ?case
  proof (cases "first_match towlower name cursor (towlower c)")
    case None
    from first_match_None [OF None] show ?thesis
      using None by (simp add: subseq_head_absent)
  next
    case (Some p)
    from first_match_bounds [OF Some] have p: "cursor \<le> p" "p < length name"
      "towlower (name ! p) = towlower c"
      "\<forall>j. cursor \<le> j \<and> j < p \<longrightarrow> towlower (name ! j) \<noteq> towlower c" by auto
    have split: "drop cursor name = take (p - cursor) (drop cursor name) @ name ! p # drop (Suc p) name"
      using p(1,2) by (metis Cons_nth_drop_Suc append_take_drop_id drop_drop le_add_diff_inverse2)
    have absent: "towlower c \<notin> set (map towlower (take (p - cursor) (drop cursor name)))"
    proof
      assume "towlower c \<in> set (map towlower (take (p - cursor) (drop cursor name)))"
      then obtain i where "i < p - cursor" "towlower (take (p - cursor) (drop cursor name) ! i) = towlower c"
        by (auto simp: in_set_conv_nth)
      then have "cursor + i < p" "towlower (name ! (cursor + i)) = towlower c"
        using p(2) by simp_all
      with p(4) show False by (metis le_add1)
    qed
    have "subseq (map towlower (c # cs)) (map towlower (drop cursor name)) \<longleftrightarrow>
          subseq (map towlower cs) (map towlower (drop (Suc p) name))"
      by (subst split) (simp add: subseq_skip_prefix [OF absent] p(3) del: subseq_Cons2_iff)
    with Cons.IH [of "Suc p"] Some show ?thesis by simp
  qed
qed

lemma greedy_assignment_sorted:
  "greedy_assignment towlower name cursor cs = Some ps \<Longrightarrow>
   sorted_wrt (<) ps \<and> (\<forall>p \<in> set ps. cursor \<le> p \<and> p < length name) \<and> length ps = length cs"
proof (induction cs arbitrary: cursor ps)
  case Nil
  then show ?case by simp
next
  case (Cons c cs)
  then obtain p ps' where p: "first_match towlower name cursor (towlower c) = Some p"
     "greedy_assignment towlower name (Suc p) cs = Some ps'" "ps = p # ps'"
    by (auto split: option.splits)
  from first_match_bounds [OF p(1)] Cons.IH [OF p(2)] p(3) show ?case
    by auto
qed

lemma greedy_assignment_first:
  "greedy_assignment towlower name cursor cs = Some ps \<Longrightarrow> i < length cs \<Longrightarrow>
   first_available towlower name (if i = 0 then cursor else Suc (ps ! (i - 1))) (cs ! i) (ps ! i)"
proof (induction cs arbitrary: cursor ps i)
  case Nil
  then show ?case by simp
next
  case (Cons c cs)
  then obtain p ps' where p: "first_match towlower name cursor (towlower c) = Some p"
     "greedy_assignment towlower name (Suc p) cs = Some ps'" "ps = p # ps'"
    by (auto split: option.splits)
  show ?case
  proof (cases i)
    case 0
    with first_match_bounds [OF p(1)] p(3) show ?thesis
      by (simp add: first_available_def)
  next
    case (Suc i')
    with Cons.prems have "i' < length cs" by simp
    from Cons.IH [OF p(2) this] Suc p(3) show ?thesis
      by (cases i') simp_all
  qed
qed

lemma greedy_assignment_is_greedy:
  "greedy_assignment towlower name 0 cs = Some ps \<Longrightarrow> is_greedy towlower name cs ps"
  using greedy_assignment_first [of towlower name 0 cs ps] greedy_assignment_sorted [of towlower name 0 cs ps]
  by (simp add: is_greedy_def)

text \<open>
  Claim C1 (lossless partition): for every name and every filter, the segmenter returns
  a result, and the texts of its segments, concatenated in order, are the name.
\<close>

theorem lossless_partition:
  "\<exists>ht. computeHighlightedName towlower name filterText = Some ht \<and>
        concat (map TextSegment (Segments ht)) = name"
  using computeHighlightedName_cases [of towlower name filterText]
  by (auto split: option.splits)

text \<open>
  Claim C2 (no-match canonical form): the greedy cursor exhausts the name before the
  filter is consumed exactly when the lowercased filter is not a subsequence of the
  lowercased name, and the result is then the single unhighlighted segment holding the
  whole name.
\<close>

theorem no_match_canonical_form:
  "(match_filter towlower name filterText initial_state = NameExhausted \<longleftrightarrow>
      \<not> subseq (map towlower filterText) (map towlower name)) \<and>
   (\<not> subseq (map towlower filterText) (map towlower name) \<longrightarrow>
      computeHighlightedName towlower name filterText =
        Some (HighlightedText [HighlightedTextSegment name False]))"
proof -
  have a: "greedy_assignment towlower name 0 filterText \<noteq> None \<longleftrightarrow>
      subseq (map towlower filterText) (map towlower name)"
    using greedy_assignment_subseq [of towlower name 0 filterText] by simp
  have b: "case greedy_assignment towlower name 0 filterText of
      None \<Rightarrow> match_filter towlower name filterText initial_state = NameExhausted
    | Some ps \<Rightarrow> (\<exists>st'. match_filter towlower name filterText initial_state = Matched st')"
    using match_filter_spec [OF initial_state_inv, of towlower name filterText]
    by (auto simp: initial_state_def split: option.splits)
  from a b computeHighlightedName_cases [of towlower name filterText]
  show ?thesis by (cases "greedy_assignment towlower name 0 filterText") auto
qed

text \<open>
  Claim C3 (greedy subsequence property): when the result has a highlighted segment, the
  highlighted positions are the greedy assignment of the filter to the name: each filter
  character, in order, has the first position behind its predecessor's whose lowercase
  form equals its own; the positions increase strictly, and the lowercased filter is a
  subsequence of the lowercased name.
\<close>

theorem greedy_subsequence:
  assumes "computeHighlightedName towlower name filterText = Some ht"
    and "\<exists>s \<in> set (Segments ht). IsHighlighted s"
  shows "greedy_assignment towlower name 0 filterText =
           Some (highlighted_offsets 0 (Segments ht)) \<and>
         is_greedy towlower name filterText (highlighted_offsets 0 (Segments ht)) \<and>
         sorted_wrt (<) (highlighted_offsets 0 (Segments ht)) \<and>
         subseq (map towlower filterText) (map towlower name)"
proof (cases "greedy_assignment towlower name 0 filterText")
  case None
  with computeHighlightedName_cases [of towlower name filterText] assms show ?thesis
    by auto
next
  case (Some ps)
  with computeHighlightedName_cases [of towlower name filterText] assms(1)
  have ps: "highlighted_offsets 0 (Segments ht) = ps" by auto
  from Some have "subseq (map towlower filterText) (map towlower name)"
    using greedy_assignment_subseq [of towlower name 0 filterText] by simp
  with Some ps greedy_assignment_is_greedy [OF Some] greedy_assignment_sorted [OF Some]
  show ?thesis by simp
qed

text \<open>
  Claim C10 (empty name): for a non-empty filter, the empty name gives the single
  unhighlighted segment with the empty text; and a result with a zero-length segment
  arises from no other input.
\<close>

theorem empty_name_segment:
  "(filterText \<noteq> [] \<longrightarrow>
      computeHighlightedName towlower [] filterText =
        Some (HighlightedText [HighlightedTextSegment [] False])) \<and>
   (\<forall>ht s. computeHighlightedName towlower name filterText = Some ht \<and>
      s \<in> set (Segments ht) \<and> TextSegment s = [] \<longrightarrow> name = [] \<and> filterText \<noteq> [])"
proof -
  have "computeHighlightedName towlower [] (c # cs) =
          Some (HighlightedText [HighlightedTextSegment [] False])" for c cs
    by (simp add: computeHighlightedName_def initial_state_def scan_unfold)
  then have first: "filterText \<noteq> [] \<longrightarrow>
      computeHighlightedName towlower [] filterText =
        Some (HighlightedText [HighlightedTextSegment [] False])"
    by (cases filterText) simp_all
  have second: "name = [] \<and> filterText \<noteq> []"
    if "computeHighlightedName towlower name filterText = Some ht"
      "s \<in> set (Segments ht)" "TextSegment s = []" for ht s
  proof (cases "greedy_assignment towlower name 0 filterText")
    case None
    with computeHighlightedName_cases [of towlower name filterText] that
    have "name = []" by auto
    moreover from None have "filterText \<noteq> []" by auto
    ultimately show ?thesis by simp
  next
    case (Some ps)
    with computeHighlightedName_cases [of towlower name filterText] that
    show ?thesis by auto
  qed
  from first second show ?thesis by blast
qed

text \<open>Claim C2 at the name \<^verbatim>\<open>Close\<close> and the filter \<^verbatim>\<open>cx\<close>.\<close>

theorem no_match_canonical_form_witness:
  "\<not> subseq (map towlower_C (wstr ''cx'')) (map towlower_C (wstr ''Close'')) \<and>
   computeHighlightedName towlower_C (wstr ''Close'') (wstr ''cx'') =
     Some (HighlightedText [HighlightedTextSegment (wstr ''Close'') False])"
proof -
  have h: "\<not> subseq (map towlower_C (wstr ''cx'')) (map towlower_C (wstr ''Close''))"
    by (simp add: wstr_def towlower_C_def)
  with no_match_canonical_form [of towlower_C "wstr ''Close''" "wstr ''cx''"]
  show ?thesis by blast
qed

text \<open>
  Claim C3 at the name \<^verbatim>\<open>Close\<close> and the filter \<^verbatim>\<open>cs\<close>: the positions 0 and 3 are
  highlighted.
\<close>

theorem greedy_subsequence_witness:
  "computeHighlightedName towlower_C (wstr ''Close'') (wstr ''cs'') =
     Some (HighlightedText
       [HighlightedTextSegment (wstr ''C'') True, HighlightedTextSegment (wstr ''lo'') False,
        HighlightedTextSegment (wstr ''s'') True, HighlightedTextSegment (wstr ''e'') False]) \<and>
   IsHighlighted (HighlightedTextSegment (wstr ''C'') True) \<and>
   greedy_assignment towlower_C (wstr ''Close'') 0 (wstr ''cs'') = Some [0, 3] \<and>
   is_greedy towlower_C (wstr ''Close'') (wstr ''cs'') [0, 3] \<and>
   subseq (map towlower_C (wstr ''cs'')) (map towlower_C (wstr ''Close''))"
proof -
  let ?ht = "HighlightedText
       [HighlightedTextSegment (wstr ''C'') True, HighlightedTextSegment (wstr ''lo'') False,
        HighlightedTextSegment (wstr ''s'') True, HighlightedTextSegment (wstr ''e'') False]"
  have a: "computeHighlightedName towlower_C (wstr ''Close'') (wstr ''cs'') = Some ?ht"
    by code_simp
  have b: "\<exists>s \<in> set (Segments ?ht). IsHighlighted s" by simp
  have c: "highlighted_offsets 0 (Segments ?ht) = [0, 3]" by (simp add: wstr_def)
  from greedy_subsequence [OF a b] a show ?thesis unfolding c by simp
qed

text \<open>Claim C10 at the empty name and the filter \<^verbatim>\<open>a\<close>.\<close>

theorem empty_name_segment_witness:
  "wstr ''a'' \<noteq> [] \<and>
   computeHighlightedName towlower_C [] (wstr ''a'') =
     Some (HighlightedText [HighlightedTextSegment [] False]) \<and>
   TextSegment (HighlightedTextSegment [] False) = []"
proof -
  have "wstr ''a'' \<noteq> []" by (simp add: wstr_def)
  with empty_name_segment [of "wstr ''a''" towlower_C "[]"] show ?thesis by simp
qed

text \<open>
  Claim C9 (concrete example), amended: for the name \<^verbatim>\<open>close all tabs after this\<close> and
  the filter \<^verbatim>\<open>clts\<close> the segments are \<^verbatim>\<open>cl\<close> (highlighted), \<^verbatim>\<open>ose all \<close>, \<^verbatim>\<open>t\<close>
  (highlighted), \<^verbatim>\<open>ab\<close>, \<^verbatim>\<open>s\<close> (highlighted) and \<^verbatim>\<open> after this\<close>.
\<close>

theorem close_all_tabs_example:
  "computeHighlightedName towlower_C (wstr ''close all tabs after this'') (wstr ''clts'') =
     Some (HighlightedText
       [HighlightedTextSegment (wstr ''cl'') True,
        HighlightedTextSegment (wstr ''ose all '') False,
        HighlightedTextSegment (wstr ''t'') True,
        HighlightedTextSegment (wstr ''ab'') False,
        HighlightedTextSegment (wstr ''s'') True,
        HighlightedTextSegment (wstr '' after this'') False])"
  by code_simp

text \<open>
  Claim C9 as stated fails: the first four segments of the result are not \<^verbatim>\<open>cl\<close>,
  \<^verbatim>\<open>ose \<close>, \<^verbatim>\<open>t\<close>, \<^verbatim>\<open>abs \<close>.
\<close>

theorem close_all_tabs_example_counterexample:
  "computeHighlightedName towlower_C (wstr ''close all tabs after this'') (wstr ''clts'') =
     Some (HighlightedText
       [HighlightedTextSegment (wstr ''cl'') True,
        HighlightedTextSegment (wstr ''ose all '') False,
        HighlightedTextSegment (wstr ''t'') True,
        HighlightedTextSegment (wstr ''ab'') False,
        HighlightedTextSegment (wstr ''s'') True,
        HighlightedTextSegment (wstr '' after this'') False]) \<and>
   take 4
       [HighlightedTextSegment (wstr ''cl'') True,
        HighlightedTextSegment (wstr ''ose all '') False,
        HighlightedTextSegment (wstr ''t'') True,
        HighlightedTextSegment (wstr ''ab'') False,
        HighlightedTextSegment (wstr ''s'') True,
        HighlightedTextSegment (wstr '' after this'') False] \<noteq>
     [HighlightedTextSegment (wstr ''cl'') True,
      HighlightedTextSegment (wstr ''ose '') False,
      HighlightedTextSegment (wstr ''t'') True,
      HighlightedTextSegment (wstr ''abs '') False]"
proof -
  have "computeHighlightedName towlower_C (wstr ''close all tabs after this'') (wstr ''clts'') =
     Some (HighlightedText
       [HighlightedTextSegment (wstr ''cl'') True,
        HighlightedTextSegment (wstr ''ose all '') False,
        HighlightedTextSegment (wstr ''t'') True,
        HighlightedTextSegment (wstr ''ab'') False,
        HighlightedTextSegment (wstr ''s'') True,
        HighlightedTextSegment (wstr '' after this'') False])"
    by code_simp
  then show ?thesis by (simp add: wstr_def)
qed

section \<open>Properties of the weigher\<close>

lemma unat_hstring_size: "length s < 2 ^ 32 \<Longrightarrow> unat (hstring_size s) = length s"
  by (simp add: hstring_size_def of_nat_inverse)

lemma hstring_size_le_1: "length s < 2 ^ 32 \<Longrightarrow> hstring_size s \<le> 1 \<longleftrightarrow> length s \<le> 1"
  by (simp add: word_le_nat_alt unat_hstring_size)

lemma hstring_size_pos: "length s < 2 ^ 32 \<Longrightarrow> 0 < hstring_size s \<longleftrightarrow> s \<noteq> []"
  by (simp add: word_less_nat_alt unat_hstring_size)

lemma hstring_last:
  assumes "length s < 2 ^ 32" "s \<noteq> []"
  shows "s ! unat (hstring_size s - 1) = last s"
proof -
  from assms have "hstring_size s \<noteq> 0"
    using hstring_size_pos [of s] by (simp add: word_gt_0)
  then have "unat (hstring_size s - 1) = length s - 1"
    using assms(1) by (simp add: unat_minus_one unat_hstring_size)
  with assms(2) show ?thesis by (simp add: last_conv_nth)
qed

lemma segment_points:
  assumes "length s < 2 ^ 32"
  shows "(if hstring_size s \<le> 1 then hstring_size s else 1 + 2 * (hstring_size s - 1)) =
         (of_int (let len = int (length s) in if len \<le> 1 then len else 1 + 2 * (len - 1)) :: 32 word)"
  using assms by (simp add: hstring_size_le_1 Let_def) (simp add: hstring_size_def)

lemma word_beginning:
  assumes "length s < 2 ^ 32"
  shows "(hstring_size s > 0 \<and> s ! unat (hstring_size s - 1) = 0x20) \<longleftrightarrow>
         (s \<noteq> [] \<and> last s = 0x20)"
  using assms hstring_last [of s] by (auto simp: hstring_size_pos)

lemma computeWeight_loop_sum:
  "(\<forall>s \<in> set segs. length (TextSegment s) < 2 ^ 32) \<Longrightarrow>
   computeWeight_loop segs r b = r + of_int (weight_sum b segs)"
proof (induction segs arbitrary: r b)
  case Nil
  show ?case by simp
next
  case (Cons s segs)
  then have len: "length (TextSegment s) < 2 ^ 32" by simp
  from Cons have IH: "\<And>r b. computeWeight_loop segs r b = r + of_int (weight_sum b segs)"
    by simp
  show ?case
    by (simp add: Let_def IH word_beginning [OF len] segment_points [OF len, unfolded Let_def])
qed

lemma weight_sum_nonneg: "0 \<le> weight_sum b segs"
proof (induction segs arbitrary: b)
  case Nil
  show ?case by simp
next
  case (Cons s segs)
  from Cons.IH [of "TextSegment s \<noteq> [] \<and> last (TextSegment s) = 0x20"]
  show ?case by (auto simp: Let_def)
qed

lemma weight_sum_upper:
  "(\<forall>s \<in> set segs. TextSegment s \<noteq> []) \<Longrightarrow>
   weight_sum b segs \<le> 2 * int (length (concat (map TextSegment segs)))"
proof (induction segs arbitrary: b)
  case Nil
  show ?case by simp
next
  case (Cons s segs)
  then have "weight_sum (TextSegment s \<noteq> [] \<and> last (TextSegment s) = 0x20) segs
          \<le> 2 * int (length (concat (map TextSegment segs)))"
    by simp
  moreover from Cons.prems obtain n where "length (TextSegment s) = Suc n"
    by (cases "TextSegment s") auto
  ultimately show ?case by (auto simp: Let_def)
qed

lemma weight_sum_pos:
  "s \<in> set segs \<Longrightarrow> IsHighlighted s \<Longrightarrow> TextSegment s \<noteq> [] \<Longrightarrow> 0 < weight_sum b segs"
proof (induction segs arbitrary: b)
  case Nil
  then show ?case by simp
next
  case (Cons x segs)
  have nn: "0 \<le> weight_sum (TextSegment x \<noteq> [] \<and> last (TextSegment x) = 0x20) segs"
    by (rule weight_sum_nonneg)
  show ?case
  proof (cases "s = x")
    case True
    with Cons.prems obtain n where "length (TextSegment x) = Suc n" "IsHighlighted x"
      by (cases "TextSegment x") auto
    with nn show ?thesis by (auto simp: Let_def)
  next
    case False
    with Cons.prems have "s \<in> set segs" by simp
    from Cons.IH [OF this Cons.prems(2,3), of "TextSegment x \<noteq> [] \<and> last (TextSegment x) = 0x20"]
    show ?thesis by (auto simp: Let_def)
  qed
qed

lemma computeWeight_loop_unhighlighted:
  "(\<forall>s \<in> set segs. \<not> IsHighlighted s) \<Longrightarrow> computeWeight_loop segs r b = r"
  by (induction segs arbitrary: r b) (simp_all add: Let_def)

lemma sint_of_int_32:
  "- (2 ^ 31) \<le> k \<Longrightarrow> k < 2 ^ 31 \<Longrightarrow> sint (of_int k :: 32 word) = k"
  by (simp add: signed_of_int signed_take_bit_int_eq_self)

lemma segment_length_le:
  "s \<in> set segs \<Longrightarrow> length (TextSegment s) \<le> length (concat (map TextSegment segs))"
  by (induction segs) auto

lemma match_filter_run:
  "k + m \<le> length name \<Longrightarrow>
   (\<forall>i. k \<le> i \<and> i < k + m \<longrightarrow> towlower (name ! i) = towlower c) \<Longrightarrow>
   match_filter towlower name (replicate m c)
     \<lparr>segments = segs, isProcessingMatchedSegment = True,
      nextOffsetToReport = nx, currentOffset = k\<rparr> =
   Matched \<lparr>segments = segs, isProcessingMatchedSegment = True,
            nextOffsetToReport = nx, currentOffset = k + m\<rparr>"
proof (induction m arbitrary: k)
  case 0
  show ?case by simp
next
  case (Suc m)
  then have k: "k < length name" "towlower (name ! k) = towlower c" by simp_all
  have step: "scan towlower name (towlower c)
      \<lparr>segments = segs, isProcessingMatchedSegment = True,
       nextOffsetToReport = nx, currentOffset = k\<rparr> =
    Matched \<lparr>segments = segs, isProcessingMatchedSegment = True,
             nextOffsetToReport = nx, currentOffset = Suc k\<rparr>"
    using k by (subst scan_unfold) (simp add: advance_def Let_def)
  from Suc.prems have "Suc k + m \<le> length name"
    "\<forall>i. Suc k \<le> i \<and> i < Suc k + m \<longrightarrow> towlower (name ! i) = towlower c" by simp_all
  from Suc.IH [OF this] step show ?case by simp
qed

lemma computeHighlightedName_prefixed_run:
  assumes "towlower x \<noteq> towlower c"
  shows "computeHighlightedName towlower (x # replicate (Suc m) c) (replicate (Suc m) c) =
         Some (HighlightedText
           [HighlightedTextSegment [x] False,
            HighlightedTextSegment (replicate (Suc m) c) True])"
proof -
  let ?name = "x # replicate (Suc m) c"
  have skip: "scan towlower ?name (towlower c) initial_state =
      scan towlower ?name (towlower c)
        \<lparr>segments = [], isProcessingMatchedSegment = False,
         nextOffsetToReport = 0, currentOffset = Suc 0\<rparr>"
    using assms by (subst scan_unfold) (simp add: initial_state_def advance_def Let_def)
  have hit: "scan towlower ?name (towlower c)
        \<lparr>segments = [], isProcessingMatchedSegment = False,
         nextOffsetToReport = 0, currentOffset = Suc 0\<rparr> =
      Matched \<lparr>segments = [HighlightedTextSegment [x] False],
               isProcessingMatchedSegment = True,
               nextOffsetToReport = Suc 0, currentOffset = Suc (Suc 0)\<rparr>"
    by (subst scan_unfold) (simp add: advance_def conclude_segment_def slice_def Let_def)
  have run: "match_filter towlower ?name (replicate m c)
       \<lparr>segments = [HighlightedTextSegment [x] False],
        isProcessingMatchedSegment = True,
        nextOffsetToReport = Suc 0, currentOffset = Suc (Suc 0)\<rparr> =
     Matched \<lparr>segments = [HighlightedTextSegment [x] False],
              isProcessingMatchedSegment = True,
              nextOffsetToReport = Suc 0, currentOffset = Suc (Suc 0) + m\<rparr>"
    by (rule match_filter_run) (auto simp: nth_Cons split: nat.splits)
  have "match_filter towlower ?name (replicate (Suc m) c) initial_state =
     Matched \<lparr>segments = [HighlightedTextSegment [x] False],
              isProcessingMatchedSegment = True,
              nextOffsetToReport = Suc 0, currentOffset = Suc (Suc 0) + m\<rparr>"
    using skip hit run by simp
  then show ?thesis
    by (simp add: computeHighlightedName_def finish_def slice_def Let_def)
qed

lemma computeWeight_after_x:
  assumes "length s = Suc (2 ^ 30)"
  shows "computeWeight (HighlightedText
           [HighlightedTextSegment [0x78] False, HighlightedTextSegment s True]) =
         2147483649"
proof -
  have "length s < 2 ^ 32" using assms by simp
  then have "\<not> hstring_size s \<le> 1"
    using assms by (simp add: hstring_size_le_1)
  moreover have "hstring_size s = 1073741825"
    using assms by (simp add: hstring_size_def)
  moreover have "hstring_size [0x78] = 1" by (simp add: hstring_size_def)
  ultimately show ?thesis
    by (simp add: computeWeight_def Let_def)
qed

lemma weight_sum_after_x:
  assumes "length s = Suc (2 ^ 30)"
  shows "weight_sum True
           [HighlightedTextSegment [0x78] False, HighlightedTextSegment s True] =
         2147483649"
  using assms by (simp add: Let_def)

lemma length_run_of_a: "length run_of_a = Suc (2 ^ 30)"
  unfolding run_of_a_def by (rule length_replicate)

text \<open>
  Claim C4 (weigher reference definition) at a segment sequence the code can receive:
  for the name \<^verbatim>\<open>x\<close> followed by \<open>2 ^ 30 + 1\<close> times \<^verbatim>\<open>a\<close>, which an \<^verbatim>\<open>hstring\<close> holds, and
  the filter of \<open>2 ^ 30 + 1\<close> times \<^verbatim>\<open>a\<close>, the segmenter returns \<^verbatim>\<open>x\<close> unhighlighted and the
  run highlighted. The sum of the claim is \<open>2 ^ 31 + 1\<close>; the code, adding in 32 bits,
  returns \<open>- (2 ^ 31 - 1)\<close>, where the comment above \<^verbatim>\<open>_computeWeight\<close> promises a positive
  number for a filter whose characters all appear in order in the name.
\<close>

theorem weigher_wraps_on_long_run:
  "length x_run_of_a < 2 ^ 31 \<and>
   computeHighlightedName towlower_C x_run_of_a run_of_a =
     Some (HighlightedText
       [HighlightedTextSegment [0x78] False, HighlightedTextSegment run_of_a True]) \<and>
   weight_sum True
     [HighlightedTextSegment [0x78] False, HighlightedTextSegment run_of_a True] =
     2 ^ 31 + 1 \<and>
   sint (computeWeight (HighlightedText
     [HighlightedTextSegment [0x78] False, HighlightedTextSegment run_of_a True])) =
     - (2 ^ 31 - 1)"
proof -
  have len: "length x_run_of_a < 2 ^ 31"
    by (simp add: x_run_of_a_def length_run_of_a)
  have "towlower_C 0x78 \<noteq> towlower_C 0x61" by (simp add: towlower_C_def)
  then have seg: "computeHighlightedName towlower_C x_run_of_a run_of_a =
     Some (HighlightedText
       [HighlightedTextSegment [0x78] False, HighlightedTextSegment run_of_a True])"
    unfolding x_run_of_a_def run_of_a_def by (rule computeHighlightedName_prefixed_run)
  have ref: "weight_sum True
     [HighlightedTextSegment [0x78] False, HighlightedTextSegment run_of_a True] =
     2 ^ 31 + 1"
    by (simp only: weight_sum_after_x [OF length_run_of_a]) simp
  have code: "sint (computeWeight (HighlightedText
     [HighlightedTextSegment [0x78] False, HighlightedTextSegment run_of_a True])) =
     - (2 ^ 31 - 1)"
    by (simp add: computeWeight_after_x [OF length_run_of_a])
  from len seg ref code show ?thesis by (intro conjI)
qed

text \<open>
  Where the sum fits the \<^verbatim>\<open>int\<close> result, the code computes it: for segments whose texts
  are strings, whenever the sum of the specification is below \<open>2 ^ 31\<close>, the weight is
  that sum.
\<close>

theorem weigher_reference:
  assumes "\<forall>s \<in> set segs. length (TextSegment s) < 2 ^ 32"
    and "weight_sum True segs < 2 ^ 31"
  shows "sint (computeWeight (HighlightedText segs)) = weight_sum True segs"
proof -
  have "computeWeight (HighlightedText segs) = of_int (weight_sum True segs)"
    using computeWeight_loop_sum [OF assms(1), of 0 True] by (simp add: computeWeight_def)
  moreover have "- (2 ^ 31) \<le> weight_sum True segs"
    using weight_sum_nonneg [of True segs] by simp
  ultimately show ?thesis using assms(2) by (simp add: sint_of_int_32)
qed

text \<open>At the segments \<^verbatim>\<open>Sp\<close> (highlighted) and \<^verbatim>\<open>lit Pane\<close> the weight is 4.\<close>

theorem weigher_reference_witness:
  "length (wstr ''Sp'') < 2 ^ 32 \<and> length (wstr ''lit Pane'') < 2 ^ 32 \<and>
   weight_sum True [HighlightedTextSegment (wstr ''Sp'') True,
                    HighlightedTextSegment (wstr ''lit Pane'') False] = 4 \<and>
   sint (computeWeight (HighlightedText
          [HighlightedTextSegment (wstr ''Sp'') True,
           HighlightedTextSegment (wstr ''lit Pane'') False])) = 4"
proof -
  let ?segs = "[HighlightedTextSegment (wstr ''Sp'') True,
                HighlightedTextSegment (wstr ''lit Pane'') False]"
  have a: "\<forall>s \<in> set ?segs. length (TextSegment s) < 2 ^ 32" by (simp add: wstr_def)
  have b: "weight_sum True ?segs = 4" by (simp add: wstr_def Let_def)
  from weigher_reference [OF a] b show ?thesis by (simp add: wstr_def)
qed

text \<open>
  For a name of fewer than \<open>2 ^ 30\<close> code units no addition of the weigher leaves the
  \<^verbatim>\<open>int\<close> range: the weight of the segmenter's result is the sum of the specification.
\<close>

lemma computeWeight_exact:
  assumes "length name < 2 ^ 30"
    and "computeHighlightedName towlower name filterText = Some ht"
  shows "sint (computeWeight ht) = weight_sum True (Segments ht)"
proof -
  have spelt: "concat (map TextSegment (Segments ht)) = name"
    using computeHighlightedName_cases [of towlower name filterText] assms(2)
    by (auto split: option.splits)
  have small: "\<forall>s \<in> set (Segments ht). length (TextSegment s) < 2 ^ 32"
  proof
    fix x assume "x \<in> set (Segments ht)"
    from segment_length_le [OF this] spelt assms(1)
    show "length (TextSegment x) < 2 ^ 32" by simp
  qed
  let ?w = "weight_sum True (Segments ht)"
  have w: "computeWeight ht = of_int ?w"
    using computeWeight_loop_sum [OF small, of 0 True] by (simp add: computeWeight_def)
  have "?w < 2 ^ 31"
  proof (cases "greedy_assignment towlower name 0 filterText")
    case None
    with computeHighlightedName_cases [of towlower name filterText] assms(2)
    show ?thesis by auto
  next
    case (Some ps)
    with computeHighlightedName_cases [of towlower name filterText] assms(2)
    have "\<forall>s \<in> set (Segments ht). TextSegment s \<noteq> []" by auto
    from weight_sum_upper [OF this, of True] spelt assms(1) show ?thesis by simp
  qed
  moreover have "- (2 ^ 31) \<le> ?w" using weight_sum_nonneg [of True "Segments ht"] by simp
  ultimately show ?thesis using w by (simp add: sint_of_int_32)
qed

text \<open>
  Claim C5 (zero iff no match): for every name that an \<^verbatim>\<open>hstring\<close> holds (fewer than
  \<open>2 ^ 31\<close> code units) and every filter, the weight of the segmenter's result is 0
  exactly when no segment of it is highlighted.
\<close>

theorem zero_iff_no_match:
  assumes "length name < 2 ^ 31"
    and "computeHighlightedName towlower name filterText = Some ht"
  shows "computeWeight ht = 0 \<longleftrightarrow> \<not> (\<exists>s \<in> set (Segments ht). IsHighlighted s)"
proof (cases "\<exists>s \<in> set (Segments ht). IsHighlighted s")
  case False
  then show ?thesis
    using computeWeight_loop_unhighlighted [of "Segments ht" 0 True]
    by (simp add: computeWeight_def)
next
  case True
  then obtain s where s: "s \<in> set (Segments ht)" "IsHighlighted s" by blast
  from computeHighlightedName_cases [of towlower name filterText] assms(2) s
  have spelt: "concat (map TextSegment (Segments ht)) = name"
    and ne: "\<forall>s \<in> set (Segments ht). TextSegment s \<noteq> []"
    by (auto split: option.splits)
  have small: "\<forall>s \<in> set (Segments ht). length (TextSegment s) < 2 ^ 32"
  proof
    fix x assume "x \<in> set (Segments ht)"
    from segment_length_le [OF this] spelt assms(1)
    show "length (TextSegment x) < 2 ^ 32" by simp
  qed
  let ?w = "weight_sum True (Segments ht)"
  have w: "computeWeight ht = of_int ?w"
    using computeWeight_loop_sum [OF small, of 0 True] by (simp add: computeWeight_def)
  from s ne have pos: "0 < ?w" by (auto intro: weight_sum_pos)
  from weight_sum_upper [OF ne, of True] spelt assms(1) have "?w < 2 ^ 32" by simp
  with pos have "\<not> 2 ^ 32 dvd ?w" by (simp add: zdvd_not_zless)
  then have "(of_int ?w :: 32 word) \<noteq> 0" by (simp add: word_of_int_eq_0_iff)
  with w True show ?thesis by simp
qed

text \<open>Claim C5 at the name \<^verbatim>\<open>Close\<close> and the filter \<^verbatim>\<open>cs\<close>: the weight is not 0.\<close>

theorem zero_iff_no_match_witness:
  "length (wstr ''Close'') < 2 ^ 31 \<and>
   computeHighlightedName towlower_C (wstr ''Close'') (wstr ''cs'') =
     Some (HighlightedText
       [HighlightedTextSegment (wstr ''C'') True, HighlightedTextSegment (wstr ''lo'') False,
        HighlightedTextSegment (wstr ''s'') True, HighlightedTextSegment (wstr ''e'') False]) \<and>
   computeWeight (HighlightedText
       [HighlightedTextSegment (wstr ''C'') True, HighlightedTextSegment (wstr ''lo'') False,
        HighlightedTextSegment (wstr ''s'') True, HighlightedTextSegment (wstr ''e'') False]) \<noteq> 0"
proof -
  have a: "length (wstr ''Close'') < 2 ^ 31" by (simp add: wstr_def)
  have b: "computeHighlightedName towlower_C (wstr ''Close'') (wstr ''cs'') =
     Some (HighlightedText
       [HighlightedTextSegment (wstr ''C'') True, HighlightedTextSegment (wstr ''lo'') False,
        HighlightedTextSegment (wstr ''s'') True, HighlightedTextSegment (wstr ''e'') False])"
    by code_simp
  from zero_iff_no_match [OF a b] a b show ?thesis by simp
qed

section \<open>Properties of the comparator\<close>

lemma traits_compare_neg:
  "traits_compare a b (min (length a) (length b)) < 0 \<or>
   (traits_compare a b (min (length a) (length b)) = 0 \<and> length a < length b)
   \<longleftrightarrow> (a, b) \<in> lexord {(x, y). x < y}"
proof (induction a arbitrary: b)
  case Nil
  show ?case by (cases b) simp_all
next
  case (Cons x a)
  show ?case
  proof (cases b)
    case Nil
    then show ?thesis by simp
  next
    case (Cons y b')
    with Cons.IH [of b'] show ?thesis by auto
  qed
qed

lemma wstring_view_compare_neg:
  "wstring_view_compare a b < 0 \<longleftrightarrow> name_precedes a b"
  unfolding name_precedes_def traits_compare_neg [symmetric]
  by (auto simp: wstring_view_compare_def Let_def)

lemma name_precedes_total: "a \<noteq> b \<Longrightarrow> name_precedes a b \<or> name_precedes b a"
proof -
  have "(a, b) \<in> lexord {(x, y). x < y} \<or> a = b \<or> (b, a) \<in> lexord {(x, y). x < y}"
    by (rule lexord_linear) auto
  then show "a \<noteq> b \<Longrightarrow> name_precedes a b \<or> name_precedes b a"
    by (auto simp: name_precedes_def)
qed

lemma name_precedes_asym: "name_precedes a b \<Longrightarrow> \<not> name_precedes b a"
proof -
  have "asym {(x :: wchar, y). x < y}" by (auto intro: asymI)
  then show "name_precedes a b \<Longrightarrow> \<not> name_precedes b a"
    unfolding name_precedes_def by (rule lexord_asymmetric)
qed

text \<open>
  Claim C6 (comparator definition and tie-break): \<open>Compare a b\<close> is true (the \<^verbatim>\<open>int\<close> 1,
  and otherwise 0) exactly when the weight of \<open>a\<close> is greater, or the weights are equal
  and the name of \<open>a\<close> precedes the name of \<open>b\<close> by code unit; for records that differ in
  weight or name, exactly one of \<open>Compare a b\<close> and \<open>Compare b a\<close> is true.
\<close>

theorem Compare_order:
  "(Compare a b = 1 \<longleftrightarrow>
      sint (Weight a) > sint (Weight b) \<or>
      (Weight a = Weight b \<and> name_precedes (Name (Command a)) (Name (Command b)))) \<and>
   (Compare a b = 1 \<or> Compare a b = 0) \<and>
   ((Weight a, Name (Command a)) \<noteq> (Weight b, Name (Command b)) \<longrightarrow>
      (Compare a b = 1) \<noteq> (Compare b a = 1))"
proof -
  have iff: "Compare a b = 1 \<longleftrightarrow>
      sint (Weight a) > sint (Weight b) \<or>
      (Weight a = Weight b \<and> name_precedes (Name (Command a)) (Name (Command b)))" for a b
    by (auto simp: Compare_def Let_def wstring_view_compare_neg)
  have bool: "Compare a b = 1 \<or> Compare a b = 0"
    by (simp add: Compare_def Let_def)
  have "(Compare a b = 1) \<noteq> (Compare b a = 1)"
    if "(Weight a, Name (Command a)) \<noteq> (Weight b, Name (Command b))"
  proof (cases "Weight a = Weight b")
    case True
    with that have "Name (Command a) \<noteq> Name (Command b)" by simp
    from name_precedes_total [OF this] name_precedes_asym True show ?thesis
      unfolding iff by auto
  next
    case False
    then have "sint (Weight a) \<noteq> sint (Weight b)" by (auto dest: signed_word_eqI)
    with False show ?thesis unfolding iff by auto
  qed
  with iff bool show ?thesis by blast
qed

text \<open>
  Claim C6 at the records of weight 5 named \<^verbatim>\<open>Close Pane\<close> and \<^verbatim>\<open>Close Tab\<close>: the first
  sorts before the second, and not the other way round.
\<close>

theorem Compare_order_witness:
  "(5 :: 32 word, wstr ''Close Pane'') \<noteq> (5, wstr ''Close Tab'') \<and>
   Compare
     \<lparr>Command = \<lparr>Name = wstr ''Close Pane''\<rparr>, Filter = [],
      HighlightedName = HighlightedText [], Weight = 5\<rparr>
     \<lparr>Command = \<lparr>Name = wstr ''Close Tab''\<rparr>, Filter = [],
      HighlightedName = HighlightedText [], Weight = 5\<rparr> = 1 \<and>
   Compare
     \<lparr>Command = \<lparr>Name = wstr ''Close Tab''\<rparr>, Filter = [],
      HighlightedName = HighlightedText [], Weight = 5\<rparr>
     \<lparr>Command = \<lparr>Name = wstr ''Close Pane''\<rparr>, Filter = [],
      HighlightedName = HighlightedText [], Weight = 5\<rparr> \<noteq> 1"
proof -
  let ?a = "\<lparr>Command = \<lparr>Name = wstr ''Close Pane''\<rparr>, Filter = [],
      HighlightedName = HighlightedText [], Weight = 5\<rparr>"
  let ?b = "\<lparr>Command = \<lparr>Name = wstr ''Close Tab''\<rparr>, Filter = [],
      HighlightedName = HighlightedText [], Weight = 5\<rparr>"
  have ne: "(5 :: 32 word, wstr ''Close Pane'') \<noteq> (5, wstr ''Close Tab'')"
    by (simp add: wstr_def)
  have ab: "Compare ?a ?b = 1"
    by (simp add: Compare_def wstring_view_compare_def wstr_def Let_def)
  from conjunct2 [OF conjunct2 [OF Compare_order [of ?a ?b]]] ne
  have "(Compare ?a ?b = 1) \<noteq> (Compare ?b ?a = 1)"
    by simp
  with ab ne show ?thesis by simp
qed

section \<open>Properties of the view model\<close>

lemma computeHighlightedName_total:
  "\<exists>ht. computeHighlightedName towlower name filterText = Some ht"
  using computeHighlightedName_cases [of towlower name filterText]
  by (auto split: option.splits)

lemma computeHighlightedName_empty_filter:
  "computeHighlightedName towlower name [] =
     Some (HighlightedText (if name = [] then [] else [HighlightedTextSegment name False]))"
  by (simp add: computeHighlightedName_def initial_state_def finish_def slice_def Let_def)

lemma recompute_result:
  "recompute towlower this = Some this' \<Longrightarrow>
   consistent towlower this' \<and> Command this' = Command this \<and> Filter this' = Filter this"
  by (auto simp: recompute_def consistent_def this_computeHighlightedName_def
      this_computeWeight_def Let_def split: option.splits)

lemma recompute_total: "\<exists>this'. recompute towlower this = Some this'"
  using computeHighlightedName_total [of towlower "Name (Command this)" "Filter this"]
  by (auto simp: recompute_def this_computeHighlightedName_def Let_def)

lemma new_FilteredCommand_consistent:
  "new_FilteredCommand towlower command = Some this \<Longrightarrow> consistent towlower this"
  by (auto simp: new_FilteredCommand_def consistent_def computeHighlightedName_empty_filter
      computeWeight_def Let_def)

lemma UpdateFilter_consistent:
  "consistent towlower this \<Longrightarrow> UpdateFilter towlower filterText this = Some this' \<Longrightarrow>
   consistent towlower this'"
  by (auto simp: UpdateFilter_def dest: recompute_result split: if_splits)

lemma UpdateFilter_total: "\<exists>this'. UpdateFilter towlower filterText this = Some this'"
  using recompute_total by (simp add: UpdateFilter_def)

lemma on_name_changed_consistent:
  "on_name_changed towlower newName this = Some this' \<Longrightarrow> consistent towlower this'"
  by (auto simp: on_name_changed_def on_PropertyChanged_def dest: recompute_result)

lemma on_name_changed_total: "\<exists>this'. on_name_changed towlower newName this = Some this'"
  using recompute_total by (simp add: on_name_changed_def on_PropertyChanged_def)

text \<open>
  Claim C7 (derived-field consistency): in every state a view model reaches (after the
  constructor, after each \<^verbatim>\<open>UpdateFilter\<close> and after each notification of a changed name
  or of another changed property), the highlighted name is the segmenter's result for
  the current name and filter, and the weight is the weigher's result for it.
\<close>

theorem derived_fields_consistent:
  "reachable towlower this \<Longrightarrow> consistent towlower this"
proof (induction rule: reachable.induct)
  case (constructed command this)
  then show ?case by (rule new_FilteredCommand_consistent)
next
  case (filter_updated this filterText this')
  then show ?case by (auto intro: UpdateFilter_consistent)
next
  case (name_changed this newName this')
  then show ?case by (auto intro: on_name_changed_consistent)
next
  case (other_property_changed this propertyName this')
  then show ?case by (simp add: on_PropertyChanged_def)
qed

text \<open>
  Claim C7 at the view model of the command \<^verbatim>\<open>ab\<close> after \<^verbatim>\<open>UpdateFilter\<close> with \<^verbatim>\<open>b\<close>.
\<close>

theorem derived_fields_consistent_witness:
  "reachable towlower_C
     \<lparr>Command = \<lparr>Name = wstr ''ab''\<rparr>, Filter = wstr ''b'',
      HighlightedName = HighlightedText
        [HighlightedTextSegment (wstr ''a'') False, HighlightedTextSegment (wstr ''b'') True],
      Weight = 1\<rparr> \<and>
   consistent towlower_C
     \<lparr>Command = \<lparr>Name = wstr ''ab''\<rparr>, Filter = wstr ''b'',
      HighlightedName = HighlightedText
        [HighlightedTextSegment (wstr ''a'') False, HighlightedTextSegment (wstr ''b'') True],
      Weight = 1\<rparr>"
proof -
  let ?s0 = "\<lparr>Command = \<lparr>Name = wstr ''ab''\<rparr>, Filter = [],
      HighlightedName = HighlightedText [HighlightedTextSegment (wstr ''ab'') False],
      Weight = 0\<rparr>"
  let ?s1 = "\<lparr>Command = \<lparr>Name = wstr ''ab''\<rparr>, Filter = wstr ''b'',
      HighlightedName = HighlightedText
        [HighlightedTextSegment (wstr ''a'') False, HighlightedTextSegment (wstr ''b'') True],
      Weight = 1\<rparr>"
  have "new_FilteredCommand towlower_C \<lparr>Name = wstr ''ab''\<rparr> = Some ?s0"
    by (simp add: new_FilteredCommand_def computeHighlightedName_empty_filter wstr_def)
  then have r0: "reachable towlower_C ?s0" by (rule constructed)
  have "computeHighlightedName towlower_C (wstr ''ab'') (wstr ''b'') =
      Some (HighlightedText
        [HighlightedTextSegment (wstr ''a'') False, HighlightedTextSegment (wstr ''b'') True])"
    by code_simp
  then have "UpdateFilter towlower_C (wstr ''b'') ?s0 = Some ?s1"
    by (simp add: UpdateFilter_def recompute_def this_computeHighlightedName_def
        this_computeWeight_def computeWeight_def hstring_size_def Let_def)
       (simp add: wstr_def)
  with r0 have r1: "reachable towlower_C ?s1" by (rule filter_updated)
  from derived_fields_consistent [OF r1] r1 show ?thesis by simp
qed

text \<open>
  Claim C8 (\<^verbatim>\<open>UpdateFilter\<close> with the current filter): in every record state, also one
  whose derived fields are out of date, the call leaves the record as it is; so a call
  that repeats the filter of the call before it changes nothing.
\<close>

theorem UpdateFilter_same_filter:
  "UpdateFilter towlower (Filter this) this = Some this \<and>
   (UpdateFilter towlower filterText this = Some this' \<longrightarrow>
      UpdateFilter towlower filterText this' = Some this')"
proof -
  have "Filter this' = filterText" if "UpdateFilter towlower filterText this = Some this'"
    using that by (auto simp: UpdateFilter_def dest: recompute_result split: if_splits)
  then show ?thesis by (simp add: UpdateFilter_def)
qed

text \<open>
  Claim C8 at the view model of the command \<^verbatim>\<open>ab\<close>: \<^verbatim>\<open>UpdateFilter\<close> with \<^verbatim>\<open>b\<close>, twice.
\<close>

theorem UpdateFilter_same_filter_witness:
  "UpdateFilter towlower_C (wstr ''b'')
     \<lparr>Command = \<lparr>Name = wstr ''ab''\<rparr>, Filter = [],
      HighlightedName = HighlightedText [HighlightedTextSegment (wstr ''ab'') False],
      Weight = 0\<rparr> =
   Some \<lparr>Command = \<lparr>Name = wstr ''ab''\<rparr>, Filter = wstr ''b'',
      HighlightedName = HighlightedText
        [HighlightedTextSegment (wstr ''a'') False, HighlightedTextSegment (wstr ''b'') True],
      Weight = 1\<rparr> \<and>
   UpdateFilter towlower_C (wstr ''b'')
     \<lparr>Command = \<lparr>Name = wstr ''ab''\<rparr>, Filter = wstr ''b'',
      HighlightedName = HighlightedText
        [HighlightedTextSegment (wstr ''a'') False, HighlightedTextSegment (wstr ''b'') True],
      Weight = 1\<rparr> =
   Some \<lparr>Command = \<lparr>Name = wstr ''ab''\<rparr>, Filter = wstr ''b'',
      HighlightedName = HighlightedText
        [HighlightedTextSegment (wstr ''a'') False, HighlightedTextSegment (wstr ''b'') True],
      Weight = 1\<rparr>"
proof -
  let ?s0 = "\<lparr>Command = \<lparr>Name = wstr ''ab''\<rparr>, Filter = [],
      HighlightedName = HighlightedText [HighlightedTextSegment (wstr ''ab'') False],
      Weight = 0\<rparr>"
  let ?s1 = "\<lparr>Command = \<lparr>Name = wstr ''ab''\<rparr>, Filter = wstr ''b'',
      HighlightedName = HighlightedText
        [HighlightedTextSegment (wstr ''a'') False, HighlightedTextSegment (wstr ''b'') True],
      Weight = 1\<rparr>"
  have "computeHighlightedName towlower_C (wstr ''ab'') (wstr ''b'') =
      Some (HighlightedText
        [HighlightedTextSegment (wstr ''a'') False, HighlightedTextSegment (wstr ''b'') True])"
    by code_simp
  then have u: "UpdateFilter towlower_C (wstr ''b'') ?s0 = Some ?s1"
    by (simp add: UpdateFilter_def recompute_def this_computeHighlightedName_def
        this_computeWeight_def computeWeight_def hstring_size_def Let_def)
       (simp add: wstr_def)
  with UpdateFilter_same_filter [of towlower_C ?s0 "wstr ''b''" ?s1] show ?thesis
    by blast
qed

end
